theory Spec2Isabelle
  imports Main
begin

section \<open>JavaScript strings\<close>

text \<open>
  A JavaScript string is modelled as a \<open>string\<close>: one \<open>char\<close> per code unit, restricted to
  the code units \<open>0x00\<close> to \<open>0xFF\<close>. An HTTP header value is such a byte string; a config file
  or an environment variable holding characters beyond that range is outside the model.
\<close>

text \<open>
  \<open>String.prototype.trim\<close> removes white space and line terminators from both ends. In the
  modelled range these are TAB, LF, VT, FF, CR, SPACE and NO-BREAK SPACE.
\<close>

definition is_space :: "char \<Rightarrow> bool" where
  "is_space c = (of_char c \<in> {9::nat, 10, 11, 12, 13, 32, 160})"

definition trim :: "string \<Rightarrow> string" where
  "trim s = rev (dropWhile is_space (rev (dropWhile is_space s)))"

text \<open>
  \<open>String.prototype.toLowerCase\<close>: in the modelled range the upper-case letters are
  \<open>A\<close> to \<open>Z\<close> and \<open>0xC0\<close> to \<open>0xDE\<close> without \<open>0xD7\<close>; each maps to the code unit 32 above it.
\<close>

definition lower_char :: "char \<Rightarrow> char" where
  "lower_char c =
     (let n = (of_char c :: nat)
      in if (65 \<le> n \<and> n \<le> 90) \<or> (192 \<le> n \<and> n \<le> 222 \<and> n \<noteq> 215)
         then char_of (n + 32) else c)"

definition toLowerCase :: "string \<Rightarrow> string" where
  "toLowerCase s = map lower_char s"

definition startsWith :: "string \<Rightarrow> string \<Rightarrow> bool" where
  "startsWith s p = (take (length p) s = p)"

definition slice :: "string \<Rightarrow> nat \<Rightarrow> string" where
  "slice s n = drop n s"

type_synonym environment = "string \<rightharpoonup> string"

section \<open>The master-key middleware (\<open>masterKeyAuth\<close> in \<open>start.ts\<close>)\<close>

datatype json = JString string | JObject "(string \<times> json) list"

record response =
  status :: nat
  body :: json

text \<open>
  A handler either hands the request on (\<open>await next()\<close>) or answers it itself
  (\<open>return c.json(body, status)\<close>).
\<close>

datatype outcome = Next | Respond response

text \<open>
  What the middleware reads of a request: its headers, keyed by lower-case name as
  \<open>c.req.header\<close> looks them up, and its path.
\<close>

record request =
  headers :: "string \<rightharpoonup> string"
  path :: string

definition AUTH_HEADER :: string where
  "AUTH_HEADER = ''authorization''"

definition BEARER_PREFIX :: string where
  "BEARER_PREFIX = ''bearer ''"

definition anthropic_error :: json where
  "anthropic_error =
     JObject [(''type'', JString ''error''),
              (''error'', JObject [(''type'', JString ''authentication_error''),
                                   (''message'', JString ''Invalid or missing Authorization header'')])]"

definition openai_error :: json where
  "openai_error =
     JObject [(''error'', JObject [(''message'', JString ''Invalid or missing Authorization header''),
                                   (''type'', JString ''invalid_api_key'')])]"

text \<open>
  The candidate token of the inner handler: \<open>None\<close> is JavaScript's \<open>undefined\<close>.
\<close>

definition candidate :: "request \<Rightarrow> string option" where
  "candidate c =
     (let headerValue = (case headers c AUTH_HEADER of None \<Rightarrow> [] | Some v \<Rightarrow> v)
      in if startsWith (toLowerCase headerValue) BEARER_PREFIX
         then Some (trim (slice headerValue (length BEARER_PREFIX)))
         else None)"

text \<open>
  \<open>masterKeyAuth\<close> reads \<open>MASTER_KEY\<close> once and returns the handler. With a blank key the
  handler is \<open>(_c, next) => next()\<close>.
\<close>

definition masterKeyAuth :: "environment \<Rightarrow> request \<Rightarrow> outcome" where
  "masterKeyAuth env =
     (let configuredKey = trim (case env ''MASTER_KEY'' of None \<Rightarrow> [] | Some v \<Rightarrow> v)
      in if configuredKey = [] then (\<lambda>_. Next)
         else (\<lambda>c.
           if candidate c \<noteq> Some configuredKey then
             (if startsWith (path c) ''/v1/messages''
              then Respond \<lparr>status = 401, body = anthropic_error\<rparr>
              else Respond \<lparr>status = 401, body = openai_error\<rparr>)
           else Next))"

section \<open>Regular expressions (the fragment \<open>ENV_REF_REGEX\<close> is written in)\<close>

text \<open>
  \<open>\w\<close> without the \<open>u\<close> and \<open>i\<close> flags is \<open>[A-Za-z0-9_]\<close>.
\<close>

definition is_word :: "char \<Rightarrow> bool" where
  "is_word c =
     (let n = (of_char c :: nat)
      in (65 \<le> n \<and> n \<le> 90) \<or> (97 \<le> n \<and> n \<le> 122) \<or> (48 \<le> n \<and> n \<le> 57) \<or> n = 95)"

datatype rx =
    RChar char
  | RWordPlus
  | RSeq rx rx
  | RAlt rx rx
  | RGroup nat rx

type_synonym captures = "nat \<rightharpoonup> string"

text \<open>
  The inputs left after \<open>\w+\<close> has consumed one or more word characters, in the order a
  greedy backtracking matcher tries them: the longest run first.
\<close>

fun word_runs :: "string \<Rightarrow> string list" where
  "word_runs [] = []"
| "word_runs (c # cs) = (if is_word c then word_runs cs @ [cs] else [])"

text \<open>
  All the ways a pattern matches at the start of the input, as the remaining input and the
  capture groups, in backtracking order: the head of the list is the match the engine reports.
  An alternative is tried left to right; a group records the text its pattern consumed.
\<close>

fun rx_matches :: "rx \<Rightarrow> string \<Rightarrow> captures \<Rightarrow> (string \<times> captures) list" where
  "rx_matches (RChar c) s cp = (case s of [] \<Rightarrow> [] | x # r \<Rightarrow> if x = c then [(r, cp)] else [])"
| "rx_matches RWordPlus s cp = map (\<lambda>r. (r, cp)) (word_runs s)"
| "rx_matches (RSeq a b) s cp =
     concat (map (\<lambda>(r, cp'). rx_matches b r cp') (rx_matches a s cp))"
| "rx_matches (RAlt a b) s cp = rx_matches a s cp @ rx_matches b s cp"
| "rx_matches (RGroup i a) s cp =
     map (\<lambda>(r, cp'). (r, cp'(i \<mapsto> take (length s - length r) s))) (rx_matches a s cp)"

text \<open>
  The search of a global regular expression from the current position: the text skipped, the
  matched text, the capture groups and the input after the match, for the leftmost position
  where the pattern matches.
\<close>

fun rx_search :: "rx \<Rightarrow> string \<Rightarrow> (string \<times> string \<times> captures \<times> string) option" where
  "rx_search r [] =
     (case rx_matches r [] Map.empty of
        [] \<Rightarrow> None
      | (rest, cp) # _ \<Rightarrow> Some ([], [], cp, rest))"
| "rx_search r (c # cs) =
     (case rx_matches r (c # cs) Map.empty of
        [] \<Rightarrow> map_option (\<lambda>(pre, m, cp, rest). (c # pre, m, cp, rest)) (rx_search r cs)
      | (rest, cp) # _ \<Rightarrow> Some ([], take (length (c # cs) - length rest) (c # cs), cp, rest))"

text \<open>\<open>/\$(?:\{(\w+)\}|(\w+))/g\<close>\<close>

definition ENV_REF_REGEX :: rx where
  "ENV_REF_REGEX =
     RSeq (RChar CHR ''$'')
          (RAlt (RSeq (RChar CHR ''{'') (RSeq (RGroup 1 RWordPlus) (RChar CHR ''}'')))
                (RGroup 2 RWordPlus))"


text \<open>
  Every pattern of the fragment consumes at least one character, so a match leaves less
  input than it was given.
\<close>

lemma word_runs_shorter: "r \<in> set (word_runs s) \<Longrightarrow> length r < length s"
  by (induction s) (auto split: if_splits)

lemma rx_matches_shorter: "(rest, cp') \<in> set (rx_matches r s cp) \<Longrightarrow> length rest < length s"
proof (induction r arbitrary: s cp rest cp')
  case (RChar c)
  then show ?case by (auto split: list.splits if_splits)
next
  case RWordPlus
  then show ?case by (auto dest: word_runs_shorter)
next
  case (RSeq a b)
  from RSeq.prems obtain mid cpm where m: "(mid, cpm) \<in> set (rx_matches a s cp)"
    and r: "(rest, cp') \<in> set (rx_matches b mid cpm)"
    by auto
  from RSeq.IH(1) [OF m] RSeq.IH(2) [OF r] show ?case by simp
next
  case (RAlt a b)
  then show ?case by auto
next
  case (RGroup i a)
  then show ?case by auto
qed

lemma rx_search_shorter:
  "rx_search r s = Some (pre, m, cp, rest) \<Longrightarrow> length rest < length s"
proof (induction s arbitrary: pre)
  case Nil
  then obtain x xs where "rx_matches r [] Map.empty = x # xs"
    by (auto split: list.splits)
  then have "(fst x, snd x) \<in> set (rx_matches r [] Map.empty)"
    by simp
  then have "length (fst x) < length ([] :: string)"
    by (rule rx_matches_shorter)
  then show ?case by simp
next
  case (Cons c cs)
  show ?case
  proof (cases "rx_matches r (c # cs) Map.empty")
    case Nil
    with Cons.prems obtain pre' where "rx_search r cs = Some (pre', m, cp, rest)"
      by auto
    from Cons.IH [OF this] show ?thesis by simp
  next
    case (Cons x xs)
    with Cons.prems have "x = (rest, cp)"
      by (auto split: prod.splits)
    with Cons have "(rest, cp) \<in> set (rx_matches r (c # cs) Map.empty)"
      by simp
    then show ?thesis by (rule rx_matches_shorter)
  qed
qed

section \<open>\<open>String.prototype.replaceAll\<close> with a replacer function\<close>

text \<open>
  An exception of the config resolver: the error \<open>fs.readFileSync\<close> raised for a path, rethrown
  as it is, or a \<open>new Error(message)\<close>.
\<close>

datatype error = FsError string | JsError string

text \<open>
  \<open>replaceAll\<close> with a global pattern first collects every match, left to right, each search
  starting where the previous match ended; the input is cut into the text between matches and
  the matches themselves.
\<close>

datatype seg = Lit string | Found string captures

function find_all :: "rx \<Rightarrow> string \<Rightarrow> seg list" where
  "find_all r s =
     (case rx_search r s of
        None \<Rightarrow> [Lit s]
      | Some (pre, m, cp, rest) \<Rightarrow> Lit pre # Found m cp # find_all r rest)"
  by pat_completeness auto
termination
  by (relation "measure (\<lambda>(r, s). length s)") (auto dest: rx_search_shorter)

declare find_all.simps [simp del]

text \<open>
  Then the replacer is called on each match in turn, left to right, and the pieces are joined.
  An exception thrown by the replacer ends the call.
\<close>

fun apply_replacer :: "(string \<Rightarrow> captures \<Rightarrow> error + string) \<Rightarrow> seg list \<Rightarrow> error + string" where
  "apply_replacer f [] = Inr []"
| "apply_replacer f (Lit t # segs) =
     (case apply_replacer f segs of Inl e \<Rightarrow> Inl e | Inr out \<Rightarrow> Inr (t @ out))"
| "apply_replacer f (Found m cp # segs) =
     (case f m cp of
        Inl e \<Rightarrow> Inl e
      | Inr rep \<Rightarrow> (case apply_replacer f segs of Inl e \<Rightarrow> Inl e | Inr out \<Rightarrow> Inr (rep @ out)))"

definition replaceAll :: "string \<Rightarrow> rx \<Rightarrow> (string \<Rightarrow> captures \<Rightarrow> error + string) \<Rightarrow> error + string" where
  "replaceAll s r f = apply_replacer f (find_all r s)"

section \<open>The accounts config (\<open>lib/account-config.ts\<close>)\<close>

record AccountDefinition =
  id' :: string
  githubToken :: string

record AccountsConfig =
  accounts :: "AccountDefinition list"
  defaultAccountId :: string

definition dq :: string where
  "dq = [CHR 0x22]"

definition env_missing_message :: "string \<Rightarrow> string \<Rightarrow> string" where
  "env_missing_message accountId variableName =
     ''Account '' @ dq @ accountId @ dq @ '' requires environment variable '' @ dq @ variableName
       @ dq @ '' to be set''"

text \<open>The replacer of \<open>resolveEnvReferences\<close>; the groups are \<open>bracketedVar\<close> and \<open>bareVar\<close>.\<close>

definition env_replacer :: "environment \<Rightarrow> string \<Rightarrow> string \<Rightarrow> captures \<Rightarrow> error + string" where
  "env_replacer env accountId matched cp =
     (let variableName =
            trim (case cp 1 of Some bracketedVar \<Rightarrow> bracketedVar
                  | None \<Rightarrow> (case cp 2 of Some bareVar \<Rightarrow> bareVar | None \<Rightarrow> []))
      in if variableName = [] then Inr []
         else (case env variableName of
                 None \<Rightarrow> Inl (JsError (env_missing_message accountId variableName))
               | Some envValue \<Rightarrow>
                   if envValue = [] then Inl (JsError (env_missing_message accountId variableName))
                   else Inr envValue))"

definition resolveEnvReferences :: "environment \<Rightarrow> string \<Rightarrow> string \<Rightarrow> error + string" where
  "resolveEnvReferences env value accountId =
     replaceAll value ENV_REF_REGEX (env_replacer env accountId)"

text \<open>
  A parsed YAML document as the JavaScript value the parser returns. A mapping is an object;
  its keys are looked up as properties (the parser rejects a mapping that repeats a key). Of a
  number only its type is ever looked at, so whole numbers stand for all of them.
\<close>

datatype yaml =
    YNull
  | YBool bool
  | YNum int
  | YStr string
  | YSeq "yaml list"
  | YMap "(string \<times> yaml) list"

text \<open>\<open>value.key\<close> on a parsed value: \<open>None\<close> is \<open>undefined\<close>.\<close>

fun property :: "yaml \<Rightarrow> string \<Rightarrow> yaml option" where
  "property (YMap m) k = map_of m k"
| "property _ k = None"

text \<open>The decimal digits of an index, as a template literal prints it.\<close>

fun show_nat :: "nat \<Rightarrow> string" where
  "show_nat n =
     (if n < 10 then [char_of (48 + n)] else show_nat (n div 10) @ [char_of (48 + n mod 10)])"

declare show_nat.simps [simp del]

definition entry_at :: "nat \<Rightarrow> string \<Rightarrow> string" where
  "entry_at index sourcePath = ''Account entry at index '' @ show_nat index @ '' in '' @ sourcePath"

fun normalizeAccount :: "environment \<Rightarrow> yaml \<Rightarrow> nat \<Rightarrow> string \<Rightarrow> error + AccountDefinition" where
  "normalizeAccount env account index sourcePath =
     (if (case account of YSeq _ \<Rightarrow> False | YMap _ \<Rightarrow> False | _ \<Rightarrow> True)
      then Inl (JsError (entry_at index sourcePath @ '' must be an object''))
      else
        (case property account ''id'' of
           Some (YStr i) \<Rightarrow>
             if trim i = []
             then Inl (JsError (entry_at index sourcePath @ '' must include a non-empty '' @ dq @ ''id'' @ dq))
             else
               (case property account ''github_token'' of
                  Some (YStr tok) \<Rightarrow>
                    if trim tok = []
                    then Inl (JsError (''Account '' @ dq @ i @ dq @ '' in '' @ sourcePath
                                @ '' must include a non-empty '' @ dq @ ''github_token'' @ dq))
                    else
                      (case resolveEnvReferences env tok i of
                         Inl e \<Rightarrow> Inl e
                       | Inr resolved \<Rightarrow> Inr \<lparr>id' = i, githubToken = resolved\<rparr>)
                | _ \<Rightarrow> Inl (JsError (''Account '' @ dq @ i @ dq @ '' in '' @ sourcePath
                                @ '' must include a non-empty '' @ dq @ ''github_token'' @ dq)))
         | _ \<Rightarrow> Inl (JsError (entry_at index sourcePath @ '' must include a non-empty '' @ dq @ ''id'' @ dq))))"

text \<open>
  \<open>accountsValue.map((account, index) => normalizeAccount(account, index, sourcePath))\<close>:
  the entries in order, from the given index; the first exception ends the loop.
\<close>

fun normalize_from :: "environment \<Rightarrow> string \<Rightarrow> nat \<Rightarrow> yaml list \<Rightarrow> error + AccountDefinition list" where
  "normalize_from env sourcePath index [] = Inr []"
| "normalize_from env sourcePath index (account # others) =
     (case normalizeAccount env account index sourcePath of
        Inl e \<Rightarrow> Inl e
      | Inr a \<Rightarrow>
          (case normalize_from env sourcePath (Suc index) others of
             Inl e \<Rightarrow> Inl e
           | Inr accs \<Rightarrow> Inr (a # accs)))"

text \<open>
  What the module takes from its libraries and from the process: the YAML parser (\<open>Inl\<close> is
  the message of the exception it throws), \<open>path.resolve\<close>, and the default config path
  \<open>path.join(process.cwd(), "config.yaml")\<close> computed when the module is loaded.
\<close>

record host =
  parse :: "string \<Rightarrow> string + yaml"
  path_resolve :: "string \<Rightarrow> string"
  DEFAULT_CONFIG_PATH :: string

text \<open>
  \<open>parseConfig\<close>. The parser's \<open>null\<close> (an empty document) is replaced by \<open>{}\<close>. Reading
  \<open>accounts[0].id\<close> of an empty array would raise a \<open>TypeError\<close>; that branch is written out
  although the emptiness test before it keeps it from being reached.
\<close>

definition parseConfig :: "host \<Rightarrow> environment \<Rightarrow> string \<Rightarrow> string \<Rightarrow> error + AccountsConfig" where
  "parseConfig h env raw sourcePath =
     (case parse h raw of
        Inl message \<Rightarrow>
          Inl (JsError (''Failed to parse accounts config ('' @ sourcePath @ ''): '' @ message))
      | Inr parsed \<Rightarrow>
          (let document = (case parsed of YNull \<Rightarrow> YMap [] | _ \<Rightarrow> parsed)
           in case property document ''accounts'' of
                Some (YSeq accountsValue) \<Rightarrow>
                  if accountsValue = []
                  then Inl (JsError (''Accounts config must define at least one account in '' @ sourcePath))
                  else
                    (case normalize_from env sourcePath 0 accountsValue of
                       Inl e \<Rightarrow> Inl e
                     | Inr accs \<Rightarrow>
                         (case accs of
                            [] \<Rightarrow> Inl (JsError ''Cannot read properties of undefined'')
                          | a # _ \<Rightarrow> Inr \<lparr>accounts = accs, defaultAccountId = id' a\<rparr>))
              | _ \<Rightarrow> Inl (JsError (''Accounts config must define at least one account in '' @ sourcePath))))"

text \<open>The file system and the environment the process runs in.\<close>

record world =
  files :: "string \<rightharpoonup> string"
  process_env :: environment

definition readConfigFile :: "world \<Rightarrow> string \<Rightarrow> error + string" where
  "readConfigFile w configPath =
     (case files w configPath of None \<Rightarrow> Inl (FsError configPath) | Some contents \<Rightarrow> Inr contents)"

text \<open>
  The module variable \<open>cachedConfig\<close> is passed in and returned: \<open>None\<close> is \<open>null\<close>.
\<close>

type_synonym cache = "AccountsConfig option"

definition resetAccountsConfigCache :: "cache \<Rightarrow> cache" where
  "resetAccountsConfigCache cachedConfig = None"

text \<open>The path \<open>getAccountsConfig\<close> reads: \<open>ACCOUNTS_CONFIG\<close> resolved when it is non-blank.\<close>

definition config_path :: "host \<Rightarrow> world \<Rightarrow> string" where
  "config_path h w =
     (case process_env w ''ACCOUNTS_CONFIG'' of
        None \<Rightarrow> DEFAULT_CONFIG_PATH h
      | Some v \<Rightarrow> if v \<noteq> [] \<and> length (trim v) > 0 then path_resolve h v else DEFAULT_CONFIG_PATH h)"

definition getAccountsConfig :: "host \<Rightarrow> world \<Rightarrow> cache \<Rightarrow> (error + AccountsConfig) \<times> cache" where
  "getAccountsConfig h w cachedConfig =
     (case cachedConfig of
        Some cfg \<Rightarrow> (Inr cfg, cachedConfig)
      | None \<Rightarrow>
          (let configPath = config_path h w
           in case readConfigFile w configPath of
                Inl e \<Rightarrow> (Inl e, cachedConfig)
              | Inr contents \<Rightarrow>
                  (case parseConfig h (process_env w) contents configPath of
                     Inl e \<Rightarrow> (Inl e, cachedConfig)
                   | Inr parsed \<Rightarrow> (Inr parsed, Some parsed))))"

section \<open>The substitution as the spec words it: a two-token scanner\<close>

text \<open>
  The spec describes the substitution as a scanner over the credential, left to right, with
  two tokens: \<open>${NAME}\<close> and \<open>$NAME\<close>, where \<open>NAME\<close> is one or more of \<open>[A-Za-z0-9_]\<close>; a
  \<open>$\<close> that starts neither token is kept as it is. The definitions below follow these words;
  they are compared with \<open>resolveEnvReferences\<close> further down.
\<close>

datatype token = TLit char | TRef string

text \<open>The reference token at the start of the input, if any: its name and the input after it.\<close>

definition spec_ref_at :: "string \<Rightarrow> (string \<times> string) option" where
  "spec_ref_at s =
     (case s of
        [] \<Rightarrow> None
      | c # r \<Rightarrow>
          if c \<noteq> CHR ''$'' then None
          else (case r of
                  [] \<Rightarrow> None
                | b # r' \<Rightarrow>
                    if b = CHR ''{''
                    then (case dropWhile is_word r' of
                            [] \<Rightarrow> None
                          | e # rest \<Rightarrow>
                              if e = CHR ''}'' \<and> takeWhile is_word r' \<noteq> []
                              then Some (takeWhile is_word r', rest) else None)
                    else if takeWhile is_word r \<noteq> []
                         then Some (takeWhile is_word r, dropWhile is_word r) else None))"

lemma spec_ref_at_shorter: "spec_ref_at s = Some (name, rest) \<Longrightarrow> length rest < length s"
proof -
  assume a: "spec_ref_at s = Some (name, rest)"
  have d: "\<And>xs. length (dropWhile is_word xs) \<le> length xs"
    by (rule length_dropWhile_le)
  from a show ?thesis
  proof (cases s)
    case Nil
    with a show ?thesis by (simp add: spec_ref_at_def)
  next
    case (Cons c r)
    note s = this
    show ?thesis
    proof (cases r)
      case Nil
      with a s show ?thesis by (simp add: spec_ref_at_def split: if_splits)
    next
      case (Cons b r')
      show ?thesis
      proof (cases "b = CHR ''{''")
        case True
        with a s Cons obtain e where "dropWhile is_word r' = e # rest"
          by (auto simp: spec_ref_at_def split: if_splits list.splits)
        then have "length rest < length r'"
          using d [of r'] by simp
        with s Cons show ?thesis by simp
      next
        case False
        with a s Cons have "rest = dropWhile is_word r"
          by (auto simp: spec_ref_at_def split: if_splits)
        with s d [of r] show ?thesis by simp
      qed
    qed
  qed
qed

function spec_scan :: "string \<Rightarrow> token list" where
  "spec_scan [] = []"
| "spec_scan (c # cs) =
     (case spec_ref_at (c # cs) of
        Some (name, rest) \<Rightarrow> TRef name # spec_scan rest
      | None \<Rightarrow> TLit c # spec_scan cs)"
  by pat_completeness auto
termination
  by (relation "measure length") (auto dest: spec_ref_at_shorter)

fun spec_substitute :: "environment \<Rightarrow> string \<Rightarrow> token list \<Rightarrow> error + string" where
  "spec_substitute env accountId [] = Inr []"
| "spec_substitute env accountId (TLit c # ts) =
     (case spec_substitute env accountId ts of Inl e \<Rightarrow> Inl e | Inr out \<Rightarrow> Inr (c # out))"
| "spec_substitute env accountId (TRef name # ts) =
     (case env name of
        None \<Rightarrow> Inl (JsError (env_missing_message accountId name))
      | Some v \<Rightarrow>
          if v = [] then Inl (JsError (env_missing_message accountId name))
          else (case spec_substitute env accountId ts of Inl e \<Rightarrow> Inl e | Inr out \<Rightarrow> Inr (v @ out)))"

text \<open>The names a credential refers to, in order.\<close>

definition spec_refs :: "string \<Rightarrow> string list" where
  "spec_refs s = concat (map (\<lambda>t. case t of TLit _ \<Rightarrow> [] | TRef name \<Rightarrow> [name]) (spec_scan s))"

text \<open>The first match of the pattern at the start of the input, if there is one.\<close>

definition first_match :: "rx \<Rightarrow> string \<Rightarrow> (string \<times> captures) option" where
  "first_match r s = (case rx_matches r s Map.empty of [] \<Rightarrow> None | x # _ \<Rightarrow> Some x)"


section \<open>Valid entries of a config document\<close>

text \<open>
  The \<open>id\<close> and the \<open>github_token\<close> of an entry, when both are strings.
\<close>

definition entry_fields :: "yaml \<Rightarrow> (string \<times> string) option" where
  "entry_fields account =
     (case property account ''id'' of
        Some (YStr i) \<Rightarrow>
          (case property account ''github_token'' of
             Some (YStr tok) \<Rightarrow> Some (i, tok)
           | _ \<Rightarrow> None)
      | _ \<Rightarrow> None)"

text \<open>A variable is set when the environment gives it a non-empty value.\<close>

definition is_set :: "environment \<Rightarrow> string \<Rightarrow> bool" where
  "is_set env name = (case env name of None \<Rightarrow> False | Some v \<Rightarrow> v \<noteq> [])"

text \<open>
  A valid entry: a mapping whose \<open>id\<close> and \<open>github_token\<close> are non-blank strings, every
  variable the token refers to being set.
\<close>

definition valid_entry :: "environment \<Rightarrow> yaml \<Rightarrow> bool" where
  "valid_entry env account =
     (case entry_fields account of
        None \<Rightarrow> False
      | Some (i, tok) \<Rightarrow> trim i \<noteq> [] \<and> trim tok \<noteq> [] \<and> list_all (is_set env) (spec_refs tok))"

text \<open>
  An account is the entry resolved: the entry's id, and its token with the references
  replaced.
\<close>

definition entry_resolved :: "environment \<Rightarrow> yaml \<Rightarrow> AccountDefinition \<Rightarrow> bool" where
  "entry_resolved env account a =
     (case entry_fields account of
        None \<Rightarrow> False
      | Some (i, tok) \<Rightarrow> id' a = i \<and> resolveEnvReferences env tok i = Inr (githubToken a))"


text \<open>
  What \<open>getAccountsConfig\<close> does on an empty cache, written on its own: the path is chosen,
  the file read and the config parsed from the world as it is at the call.
\<close>

definition fresh_load :: "host \<Rightarrow> world \<Rightarrow> (error + AccountsConfig) \<times> cache" where
  "fresh_load h w =
     (case readConfigFile w (config_path h w) of
        Inl e \<Rightarrow> (Inl e, None)
      | Inr contents \<Rightarrow>
          (case parseConfig h (process_env w) contents (config_path h w) of
             Inl e \<Rightarrow> (Inl e, None)
           | Inr parsed \<Rightarrow> (Inr parsed, Some parsed)))"

text \<open>
  The shape every returned config has: at least one account, and the default id is the id of
  the first one.
\<close>

definition config_ok :: "AccountsConfig \<Rightarrow> bool" where
  "config_ok cfg = (accounts cfg \<noteq> [] \<and> defaultAccountId cfg = id' (hd (accounts cfg)))"

definition cache_ok :: "cache \<Rightarrow> bool" where
  "cache_ok c = (case c of None \<Rightarrow> True | Some cfg \<Rightarrow> config_ok cfg)"

text \<open>Two example documents, and a host whose parser knows them by their text.\<close>

definition doc_two :: yaml where
  "doc_two =
     YMap [(''accounts'',
            YSeq [YMap [(''id'', YStr ''primary''), (''github_token'', YStr ''token-one'')],
                  YMap [(''id'', YStr ''backup''), (''github_token'', YStr ''${TOK}'')]])]"

definition doc_dup :: yaml where
  "doc_dup =
     YMap [(''accounts'',
            YSeq [YMap [(''id'', YStr ''a''), (''github_token'', YStr ''t1'')],
                  YMap [(''id'', YStr ''a''), (''github_token'', YStr ''t2'')]])]"

definition example_host :: host where
  "example_host =
     \<lparr>parse = (\<lambda>raw. if raw = ''two'' then Inr doc_two
                       else if raw = ''dup'' then Inr doc_dup
                       else Inl ''unexpected token''),
      path_resolve = (\<lambda>p. p),
      DEFAULT_CONFIG_PATH = ''/cwd/config.yaml''\<rparr>"

section \<open>Properties of the master-key middleware\<close>

lemma trim_Nil: "trim [] = []"
  by (simp add: trim_def)

lemma length_BEARER_PREFIX: "length BEARER_PREFIX = 7"
  by (simp add: BEARER_PREFIX_def)

text \<open>Only a space is lowered to a space.\<close>

lemma lower_char_space: "lower_char c = CHR '' '' \<Longrightarrow> c = CHR '' ''"
proof -
  assume a: "lower_char c = CHR '' ''"
  show ?thesis
  proof (cases "(65 \<le> (of_char c :: nat) \<and> (of_char c :: nat) \<le> 90) \<or>
                (192 \<le> (of_char c :: nat) \<and> (of_char c :: nat) \<le> 222 \<and> (of_char c :: nat) \<noteq> 215)")
    case True
    with a have "char_of ((of_char c :: nat) + 32) = CHR '' ''"
      by (simp only: lower_char_def Let_def if_P)
    then have "(of_char (char_of ((of_char c :: nat) + 32) :: char) :: nat) = of_char CHR '' ''"
      by simp
    then have "((of_char c :: nat) + 32) mod 256 = 32"
      by (simp only: of_char_of) simp
    moreover from True have "(of_char c :: nat) + 32 < 256" by linarith
    ultimately have "(of_char c :: nat) + 32 = 32" by (simp only: mod_less)
    with True have False by linarith
    then show ?thesis ..
  next
    case False
    with a show ?thesis by (simp only: lower_char_def Let_def if_not_P if_False)
  qed
qed

text \<open>
  The test \<open>headerValue.toLowerCase().startsWith("bearer ")\<close> holds exactly of the headers
  made of six characters that lower to \<open>bearer\<close>, then a space, then anything.
\<close>

lemma bearer_prefix_iff:
  "startsWith (toLowerCase h) BEARER_PREFIX \<longleftrightarrow>
     (\<exists>s rest. h = s @ CHR '' '' # rest \<and> length s = 6 \<and> toLowerCase s = ''bearer'')"
proof
  assume a: "startsWith (toLowerCase h) BEARER_PREFIX"
  then have t: "take 7 (toLowerCase h) = BEARER_PREFIX"
    by (simp only: startsWith_def length_BEARER_PREFIX)
  have "length (take 7 (toLowerCase h)) = 7"
    by (simp only: t length_BEARER_PREFIX)
  then have hl: "7 \<le> length h"
    by (simp add: toLowerCase_def)
  have "take 6 (toLowerCase h) = take 6 (take 7 (toLowerCase h))"
    by simp
  also have "\<dots> = ''bearer''"
    by (simp only: t) (simp add: BEARER_PREFIX_def)
  finally have low: "toLowerCase (take 6 h) = ''bearer''"
    by (simp add: toLowerCase_def take_map)
  have "toLowerCase h ! 6 = take 7 (toLowerCase h) ! 6"
    by simp
  also have "\<dots> = CHR '' ''"
    by (simp only: t) (simp add: BEARER_PREFIX_def)
  finally have "lower_char (h ! 6) = CHR '' ''"
    using hl by (simp add: toLowerCase_def)
  then have sp: "h ! 6 = CHR '' ''"
    by (rule lower_char_space)
  have "h = take 6 h @ h ! 6 # drop (Suc 6) h"
    using hl by (intro id_take_nth_drop) simp
  with sp have "h = take 6 h @ CHR '' '' # drop 7 h"
    by simp
  moreover have "length (take 6 h) = 6"
    using hl by simp
  ultimately show "\<exists>s rest. h = s @ CHR '' '' # rest \<and> length s = 6 \<and> toLowerCase s = ''bearer''"
    using low by blast
next
  assume "\<exists>s rest. h = s @ CHR '' '' # rest \<and> length s = 6 \<and> toLowerCase s = ''bearer''"
  then obtain s rest where h: "h = s @ CHR '' '' # rest" and len: "length s = 6"
    and l: "toLowerCase s = ''bearer''"
    by blast
  have "take 7 (toLowerCase h) = toLowerCase s @ [lower_char CHR '' '']"
    using len by (simp add: h toLowerCase_def)
  also have "\<dots> = BEARER_PREFIX"
    by (simp add: l BEARER_PREFIX_def lower_char_def)
  finally show "startsWith (toLowerCase h) BEARER_PREFIX"
    by (simp only: startsWith_def length_BEARER_PREFIX)
qed

text \<open>
  Claim C1. With a non-blank master secret configured (the trimmed \<open>MASTER_KEY\<close>), the
  handler lets a request through if and only if its candidate token equals the secret. Every
  other request is answered with status 401: with the Anthropic-style body
  \<open>{"type":"error","error":{"type":"authentication_error","message":"Invalid or missing
  Authorization header"}}\<close> when the path starts with \<open>/v1/messages\<close>, and with the
  OpenAI-style body \<open>{"error":{"message":"Invalid or missing Authorization header",
  "type":"invalid_api_key"}}\<close> on every other path.
\<close>

theorem masterKeyAuth_configured:
  assumes "env ''MASTER_KEY'' = Some v" and "trim v \<noteq> []"
  shows "(masterKeyAuth env c = Next \<longleftrightarrow> candidate c = Some (trim v)) \<and>
         (candidate c \<noteq> Some (trim v) \<longrightarrow>
            masterKeyAuth env c =
              Respond \<lparr>status = 401,
                       body = (if startsWith (path c) ''/v1/messages''
                               then JObject [(''type'', JString ''error''),
                                      (''error'', JObject
                                         [(''type'', JString ''authentication_error''),
                                          (''message'', JString ''Invalid or missing Authorization header'')])]
                               else JObject [(''error'', JObject
                                         [(''message'', JString ''Invalid or missing Authorization header''),
                                          (''type'', JString ''invalid_api_key'')])])\<rparr>)"
  using assms by (simp add: masterKeyAuth_def anthropic_error_def openai_error_def)

theorem masterKeyAuth_configured_witness:
  "[''MASTER_KEY'' \<mapsto> ''secret''] ''MASTER_KEY'' = Some ''secret'' \<and> trim ''secret'' \<noteq> [] \<and>
   candidate \<lparr>headers = [''authorization'' \<mapsto> ''Bearer wrong''], path = ''/v1/messages''\<rparr>
     \<noteq> Some (trim ''secret'') \<and>
   masterKeyAuth [''MASTER_KEY'' \<mapsto> ''secret'']
       \<lparr>headers = [''authorization'' \<mapsto> ''Bearer wrong''], path = ''/v1/messages''\<rparr> =
     Respond \<lparr>status = 401,
              body = JObject [(''type'', JString ''error''),
                       (''error'', JObject
                          [(''type'', JString ''authentication_error''),
                           (''message'', JString ''Invalid or missing Authorization header'')])]\<rparr>"
proof -
  have k: "trim ''secret'' = ''secret''"
    by (simp add: trim_def is_space_def)
  have c: "candidate \<lparr>headers = [''authorization'' \<mapsto> ''Bearer wrong''], path = ''/v1/messages''\<rparr>
             = Some ''wrong''"
    by code_simp
  show ?thesis
    using masterKeyAuth_configured [of "[''MASTER_KEY'' \<mapsto> ''secret'']" "''secret''"
        "\<lparr>headers = [''authorization'' \<mapsto> ''Bearer wrong''], path = ''/v1/messages''\<rparr>"]
    by (simp add: k c startsWith_def)
qed

text \<open>
  Claim C5. A candidate token exists exactly when the \<open>Authorization\<close> header starts with the
  scheme \<open>Bearer\<close>, in any letter case, followed by the one space of the prefix: the lowered
  header starts with the seven characters \<open>bearer\<close> and space. The candidate is then what
  follows the prefix, trimmed. A header that does not match that one-space prefix (an absent
  header, another scheme, no space or another white-space character right after the scheme,
  white space before it) has no candidate, and with a secret configured the request is
  rejected with status 401.
\<close>

theorem candidate_bearer_prefix:
  assumes "h = (case headers c ''authorization'' of None \<Rightarrow> [] | Some v \<Rightarrow> v)"
  shows "(candidate c \<noteq> None \<longleftrightarrow> startsWith (toLowerCase h) ''bearer '') \<and>
         (candidate c \<noteq> None \<longleftrightarrow>
            (\<exists>s rest. h = s @ CHR '' '' # rest \<and> length s = 6 \<and> toLowerCase s = ''bearer'')) \<and>
         (\<forall>s rest. h = s @ CHR '' '' # rest \<and> length s = 6 \<and> toLowerCase s = ''bearer''
            \<longrightarrow> candidate c = Some (trim rest)) \<and>
         (candidate c = None \<and> env ''MASTER_KEY'' = Some v \<and> trim v \<noteq> [] \<longrightarrow>
            masterKeyAuth env c \<noteq> Next \<and>
            (\<exists>b. masterKeyAuth env c = Respond \<lparr>status = 401, body = b\<rparr>))"
proof (intro conjI allI impI)
  have pre: "startsWith (toLowerCase h) BEARER_PREFIX \<longleftrightarrow>
      (\<exists>s rest. h = s @ CHR '' '' # rest \<and> length s = 6 \<and> toLowerCase s = ''bearer'')"
    by (rule bearer_prefix_iff)
  show "candidate c \<noteq> None \<longleftrightarrow> startsWith (toLowerCase h) ''bearer ''"
    by (simp add: candidate_def assms AUTH_HEADER_def BEARER_PREFIX_def Let_def)
  show "candidate c \<noteq> None \<longleftrightarrow>
      (\<exists>s rest. h = s @ CHR '' '' # rest \<and> length s = 6 \<and> toLowerCase s = ''bearer'')"
    using pre by (simp add: candidate_def assms AUTH_HEADER_def Let_def)
next
  fix s rest
  assume a: "h = s @ CHR '' '' # rest \<and> length s = 6 \<and> toLowerCase s = ''bearer''"
  then have "startsWith (toLowerCase h) BEARER_PREFIX"
    using bearer_prefix_iff [of h] by blast
  moreover have "slice h (length BEARER_PREFIX) = rest"
    using a by (simp add: slice_def length_BEARER_PREFIX)
  ultimately show "candidate c = Some (trim rest)"
    using assms by (simp add: candidate_def AUTH_HEADER_def)
next
  assume a: "candidate c = None \<and> env ''MASTER_KEY'' = Some v \<and> trim v \<noteq> []"
  then show "masterKeyAuth env c \<noteq> Next"
    by (simp add: masterKeyAuth_def)
  from a show "\<exists>b. masterKeyAuth env c = Respond \<lparr>status = 401, body = b\<rparr>"
    by (simp add: masterKeyAuth_def)
qed

theorem candidate_bearer_prefix_witness:
  "candidate \<lparr>headers = [''authorization'' \<mapsto> ''bEARER tok''], path = ''/v1/responses''\<rparr>
     = Some ''tok'' \<and>
   candidate \<lparr>headers = Map.empty, path = ''/v1/responses''\<rparr> = None \<and>
   masterKeyAuth [''MASTER_KEY'' \<mapsto> ''secret''] \<lparr>headers = Map.empty, path = ''/v1/responses''\<rparr>
     \<noteq> Next"
proof -
  have t: "trim ''tok'' = ''tok''" and k: "trim ''secret'' = ''secret''"
    by (simp_all add: trim_def is_space_def)
  have l: "toLowerCase ''bEARER'' = ''bearer''"
    by code_simp
  have "candidate \<lparr>headers = [''authorization'' \<mapsto> ''bEARER tok''], path = ''/v1/responses''\<rparr>
          = Some ''tok''"
  proof -
    have "\<forall>s rest. ''bEARER tok'' = s @ CHR '' '' # rest \<and> length s = 6 \<and> toLowerCase s = ''bearer''
        \<longrightarrow> candidate \<lparr>headers = [''authorization'' \<mapsto> ''bEARER tok''], path = ''/v1/responses''\<rparr>
              = Some (trim rest)"
      using candidate_bearer_prefix [of "''bEARER tok''"
          "\<lparr>headers = [''authorization'' \<mapsto> ''bEARER tok''], path = ''/v1/responses''\<rparr>"
          Map.empty "[]"]
      by simp
    then have "''bEARER tok'' = ''bEARER'' @ CHR '' '' # ''tok'' \<and> length ''bEARER'' = 6
          \<and> toLowerCase ''bEARER'' = ''bearer''
        \<longrightarrow> candidate \<lparr>headers = [''authorization'' \<mapsto> ''bEARER tok''], path = ''/v1/responses''\<rparr>
              = Some (trim ''tok'')"
      by blast
    then show ?thesis
      by (simp add: t l)
  qed
  moreover have n: "candidate \<lparr>headers = Map.empty, path = ''/v1/responses''\<rparr> = None"
    by (simp add: candidate_def AUTH_HEADER_def BEARER_PREFIX_def startsWith_def toLowerCase_def)
  moreover have "masterKeyAuth [''MASTER_KEY'' \<mapsto> ''secret'']
      \<lparr>headers = Map.empty, path = ''/v1/responses''\<rparr> \<noteq> Next"
    using candidate_bearer_prefix [of "[]" "\<lparr>headers = Map.empty, path = ''/v1/responses''\<rparr>"
        "[''MASTER_KEY'' \<mapsto> ''secret'']" "''secret''"]
    by (simp add: n k)
  ultimately show ?thesis by blast
qed

text \<open>
  What follows the prefix is trimmed: the header \<open>Bearer\<close>, two spaces, \<open>secret\<close> starts with
  the one-space prefix, carries the candidate \<open>secret\<close> and passes a gate configured with that
  secret.
\<close>

lemma candidate_two_spaces:
  "candidate \<lparr>headers = [''authorization'' \<mapsto> ''Bearer  secret''], path = ''/v1/responses''\<rparr>
     = Some ''secret'' \<and>
   masterKeyAuth [''MASTER_KEY'' \<mapsto> ''secret'']
     \<lparr>headers = [''authorization'' \<mapsto> ''Bearer  secret''], path = ''/v1/responses''\<rparr> = Next"
  by code_simp

text \<open>
  Claim C7. When \<open>MASTER_KEY\<close> is unset or blank after trimming, the handler is the constant
  function that hands every request on: the request (its header, absent or wrong, and its
  path) is not looked at.
\<close>

theorem masterKeyAuth_blank:
  assumes "case env ''MASTER_KEY'' of None \<Rightarrow> True | Some v \<Rightarrow> trim v = []"
  shows "masterKeyAuth env = (\<lambda>_. Next)"
  using assms by (simp add: masterKeyAuth_def trim_Nil split: option.splits)

theorem masterKeyAuth_blank_witness:
  "masterKeyAuth [''MASTER_KEY'' \<mapsto> ''  ''] = (\<lambda>_. Next) \<and>
   masterKeyAuth Map.empty \<lparr>headers = [''authorization'' \<mapsto> ''Bearer wrong''], path = ''/v1/messages''\<rparr>
     = Next"
proof -
  have b: "trim ''  '' = []"
    by (simp add: trim_def is_space_def)
  have "masterKeyAuth [''MASTER_KEY'' \<mapsto> ''  ''] = (\<lambda>_. Next)"
    using masterKeyAuth_blank [of "[''MASTER_KEY'' \<mapsto> ''  '']"] by (simp add: b)
  moreover have "masterKeyAuth Map.empty = (\<lambda>_. Next)"
    using masterKeyAuth_blank [of Map.empty] by simp
  ultimately show ?thesis by simp
qed


section \<open>Properties of the config cache\<close>

lemma getAccountsConfig_None: "getAccountsConfig h w None = fresh_load h w"
  by (simp add: getAccountsConfig_def fresh_load_def Let_def split: sum.splits)

lemma getAccountsConfig_Some: "getAccountsConfig h w (Some cfg) = (Inr cfg, Some cfg)"
  by (simp add: getAccountsConfig_def)

lemma getAccountsConfig_Inr_cache:
  "getAccountsConfig h w c = (Inr cfg, c') \<Longrightarrow> c' = Some cfg"
  by (cases c) (auto simp: getAccountsConfig_def Let_def split: sum.splits)

lemma getAccountsConfig_Inl_cache:
  "getAccountsConfig h w c = (Inl e, c') \<Longrightarrow> c = None \<and> c' = None"
  by (cases c) (auto simp: getAccountsConfig_def Let_def split: sum.splits)

text \<open>
  Claim C4. After a successful \<open>getAccountsConfig\<close>, a further call without a reset returns
  the same config and leaves the cache as it is, whatever the files and the environment have
  become: neither is read. After \<open>resetAccountsConfigCache\<close> the next call loads from the
  files and the environment of that moment.
\<close>

theorem getAccountsConfig_cached:
  assumes "getAccountsConfig h w c = (Inr cfg, c')"
  shows "(\<forall>w'. getAccountsConfig h w' c' = (Inr cfg, c')) \<and>
         (\<forall>w'. getAccountsConfig h w' (resetAccountsConfigCache c') = fresh_load h w')"
  using getAccountsConfig_Inr_cache [OF assms]
  by (simp add: getAccountsConfig_Some getAccountsConfig_None resetAccountsConfigCache_def)

theorem getAccountsConfig_cached_witness:
  "getAccountsConfig example_host
      \<lparr>files = [''/cwd/config.yaml'' \<mapsto> ''dup''], process_env = Map.empty\<rparr> None
     = (Inr \<lparr>accounts = [\<lparr>id' = ''a'', githubToken = ''t1''\<rparr>, \<lparr>id' = ''a'', githubToken = ''t2''\<rparr>],
             defaultAccountId = ''a''\<rparr>,
        Some \<lparr>accounts = [\<lparr>id' = ''a'', githubToken = ''t1''\<rparr>, \<lparr>id' = ''a'', githubToken = ''t2''\<rparr>],
              defaultAccountId = ''a''\<rparr>) \<and>
   getAccountsConfig example_host
      \<lparr>files = [''/cwd/config.yaml'' \<mapsto> ''two''], process_env = [''TOK'' \<mapsto> ''abc'']\<rparr>
      (Some \<lparr>accounts = [\<lparr>id' = ''a'', githubToken = ''t1''\<rparr>, \<lparr>id' = ''a'', githubToken = ''t2''\<rparr>],
              defaultAccountId = ''a''\<rparr>)
     = (Inr \<lparr>accounts = [\<lparr>id' = ''a'', githubToken = ''t1''\<rparr>, \<lparr>id' = ''a'', githubToken = ''t2''\<rparr>],
             defaultAccountId = ''a''\<rparr>,
        Some \<lparr>accounts = [\<lparr>id' = ''a'', githubToken = ''t1''\<rparr>, \<lparr>id' = ''a'', githubToken = ''t2''\<rparr>],
              defaultAccountId = ''a''\<rparr>) \<and>
   fst (getAccountsConfig example_host
      \<lparr>files = [''/cwd/config.yaml'' \<mapsto> ''two''], process_env = [''TOK'' \<mapsto> ''abc'']\<rparr>
      (resetAccountsConfigCache
        (Some \<lparr>accounts = [\<lparr>id' = ''a'', githubToken = ''t1''\<rparr>, \<lparr>id' = ''a'', githubToken = ''t2''\<rparr>],
              defaultAccountId = ''a''\<rparr>)))
     = Inr \<lparr>accounts = [\<lparr>id' = ''primary'', githubToken = ''token-one''\<rparr>,
                         \<lparr>id' = ''backup'', githubToken = ''abc''\<rparr>],
            defaultAccountId = ''primary''\<rparr>"
proof -
  let ?cfg = "\<lparr>accounts = [\<lparr>id' = ''a'', githubToken = ''t1''\<rparr>, \<lparr>id' = ''a'', githubToken = ''t2''\<rparr>],
              defaultAccountId = ''a''\<rparr>"
  let ?w' = "\<lparr>files = [''/cwd/config.yaml'' \<mapsto> ''two''], process_env = [''TOK'' \<mapsto> ''abc'']\<rparr>"
  have first: "getAccountsConfig example_host
      \<lparr>files = [''/cwd/config.yaml'' \<mapsto> ''dup''], process_env = Map.empty\<rparr> None
     = (Inr ?cfg, Some ?cfg)"
    by code_simp
  have fresh: "fst (fresh_load example_host ?w')
     = Inr \<lparr>accounts = [\<lparr>id' = ''primary'', githubToken = ''token-one''\<rparr>,
                         \<lparr>id' = ''backup'', githubToken = ''abc''\<rparr>],
            defaultAccountId = ''primary''\<rparr>"
    by code_simp
  from getAccountsConfig_cached [OF first]
  have "getAccountsConfig example_host ?w' (Some ?cfg) = (Inr ?cfg, Some ?cfg)"
    and "getAccountsConfig example_host ?w' (resetAccountsConfigCache (Some ?cfg))
          = fresh_load example_host ?w'"
    by blast+
  with first fresh show ?thesis
    by simp
qed

text \<open>
  Claim C10. When \<open>getAccountsConfig\<close> fails, for whatever reason, the cache was empty and
  is left empty, so the next call loads from the files and the environment again; no failure
  is cached.
\<close>

theorem getAccountsConfig_failure:
  assumes "getAccountsConfig h w c = (Inl e, c')"
  shows "c = None \<and> c' = c \<and> (\<forall>w'. getAccountsConfig h w' c' = fresh_load h w')"
  using getAccountsConfig_Inl_cache [OF assms]
  by (simp add: getAccountsConfig_None)

theorem getAccountsConfig_failure_witness:
  "getAccountsConfig example_host \<lparr>files = Map.empty, process_env = Map.empty\<rparr> None
     = (Inl (FsError ''/cwd/config.yaml''), None) \<and>
   fst (getAccountsConfig example_host
      \<lparr>files = [''/cwd/config.yaml'' \<mapsto> ''two''], process_env = [''TOK'' \<mapsto> ''abc'']\<rparr> None)
     = Inr \<lparr>accounts = [\<lparr>id' = ''primary'', githubToken = ''token-one''\<rparr>,
                         \<lparr>id' = ''backup'', githubToken = ''abc''\<rparr>],
            defaultAccountId = ''primary''\<rparr>"
proof -
  let ?w' = "\<lparr>files = [''/cwd/config.yaml'' \<mapsto> ''two''], process_env = [''TOK'' \<mapsto> ''abc'']\<rparr>"
  have first: "getAccountsConfig example_host \<lparr>files = Map.empty, process_env = Map.empty\<rparr> None
     = (Inl (FsError ''/cwd/config.yaml''), None)"
    by code_simp
  have fresh: "fst (fresh_load example_host ?w')
     = Inr \<lparr>accounts = [\<lparr>id' = ''primary'', githubToken = ''token-one''\<rparr>,
                         \<lparr>id' = ''backup'', githubToken = ''abc''\<rparr>],
            defaultAccountId = ''primary''\<rparr>"
    by code_simp
  from getAccountsConfig_failure [OF first]
  have "getAccountsConfig example_host ?w' None = fresh_load example_host ?w'"
    by blast
  with first fresh show ?thesis
    by simp
qed

section \<open>The shape of a returned config\<close>

lemma parseConfig_ok: "parseConfig h env raw sourcePath = Inr cfg \<Longrightarrow> config_ok cfg"
  by (auto simp: parseConfig_def config_ok_def Let_def
      split: sum.splits option.splits yaml.splits if_splits list.splits)

lemma fresh_load_ok: "fresh_load h w = (Inr cfg, c') \<Longrightarrow> config_ok cfg"
  by (auto simp: fresh_load_def split: sum.splits dest: parseConfig_ok)

text \<open>
  Claim C6, as the code has it. Every config returned by \<open>getAccountsConfig\<close>, loaded or taken
  from a cache that earlier calls filled, has at least one account, and its
  \<open>defaultAccountId\<close> is the id of the first account, hence of a member of \<open>accounts\<close>.
  Nothing is promised about the ids being pairwise distinct: they are not compared.
\<close>

theorem getAccountsConfig_default_member:
  assumes "cache_ok c" and "getAccountsConfig h w c = (Inr cfg, c')"
  shows "accounts cfg \<noteq> [] \<and> defaultAccountId cfg = id' (hd (accounts cfg)) \<and>
         defaultAccountId cfg \<in> id' ` set (accounts cfg) \<and> cache_ok c'"
proof -
  have ok: "config_ok cfg"
  proof (cases c)
    case None
    with assms(2) have "fresh_load h w = (Inr cfg, c')"
      by (simp add: getAccountsConfig_None)
    then show ?thesis by (rule fresh_load_ok)
  next
    case (Some cached)
    with assms show ?thesis
      by (simp add: getAccountsConfig_Some cache_ok_def)
  qed
  have c': "c' = Some cfg"
    using assms(2) by (rule getAccountsConfig_Inr_cache)
  from ok have "hd (accounts cfg) \<in> set (accounts cfg)"
    by (simp add: config_ok_def)
  with ok c' show ?thesis
    by (auto simp: config_ok_def cache_ok_def)
qed

theorem getAccountsConfig_default_member_witness:
  "cache_ok None \<and>
   defaultAccountId \<lparr>accounts = [\<lparr>id' = ''a'', githubToken = ''t1''\<rparr>, \<lparr>id' = ''a'', githubToken = ''t2''\<rparr>],
                     defaultAccountId = ''a''\<rparr>
     \<in> id' ` set (accounts \<lparr>accounts = [\<lparr>id' = ''a'', githubToken = ''t1''\<rparr>,
                                          \<lparr>id' = ''a'', githubToken = ''t2''\<rparr>],
                              defaultAccountId = ''a''\<rparr>)"
proof -
  let ?cfg = "\<lparr>accounts = [\<lparr>id' = ''a'', githubToken = ''t1''\<rparr>, \<lparr>id' = ''a'', githubToken = ''t2''\<rparr>],
              defaultAccountId = ''a''\<rparr>"
  have ok: "cache_ok None"
    by (simp add: cache_ok_def)
  have first: "getAccountsConfig example_host
      \<lparr>files = [''/cwd/config.yaml'' \<mapsto> ''dup''], process_env = Map.empty\<rparr> None
     = (Inr ?cfg, Some ?cfg)"
    by code_simp
  from getAccountsConfig_default_member [OF ok first] ok show ?thesis
    by blast
qed

text \<open>
  The ids of a returned config need not be distinct: a document that declares the id \<open>a\<close>
  twice is accepted with both entries.
\<close>

theorem getAccountsConfig_duplicate_ids:
  "getAccountsConfig example_host
      \<lparr>files = [''/cwd/config.yaml'' \<mapsto> ''dup''], process_env = Map.empty\<rparr> None
     = (Inr \<lparr>accounts = [\<lparr>id' = ''a'', githubToken = ''t1''\<rparr>, \<lparr>id' = ''a'', githubToken = ''t2''\<rparr>],
             defaultAccountId = ''a''\<rparr>,
        Some \<lparr>accounts = [\<lparr>id' = ''a'', githubToken = ''t1''\<rparr>, \<lparr>id' = ''a'', githubToken = ''t2''\<rparr>],
              defaultAccountId = ''a''\<rparr>) \<and>
   \<not> distinct (map id' (accounts
        \<lparr>accounts = [\<lparr>id' = ''a'', githubToken = ''t1''\<rparr>, \<lparr>id' = ''a'', githubToken = ''t2''\<rparr>],
         defaultAccountId = ''a''\<rparr>))"
proof -
  have "getAccountsConfig example_host
      \<lparr>files = [''/cwd/config.yaml'' \<mapsto> ''dup''], process_env = Map.empty\<rparr> None
     = (Inr \<lparr>accounts = [\<lparr>id' = ''a'', githubToken = ''t1''\<rparr>, \<lparr>id' = ''a'', githubToken = ''t2''\<rparr>],
             defaultAccountId = ''a''\<rparr>,
        Some \<lparr>accounts = [\<lparr>id' = ''a'', githubToken = ''t1''\<rparr>, \<lparr>id' = ''a'', githubToken = ''t2''\<rparr>],
              defaultAccountId = ''a''\<rparr>)"
    by code_simp
  then show ?thesis
    by simp
qed


section \<open>The pattern \<open>ENV_REF_REGEX\<close> matches the scanner's tokens\<close>

lemma word_runs_filter:
  assumes "\<And>r. P r \<Longrightarrow> r \<noteq> [] \<and> \<not> is_word (hd r)"
  shows "filter P (word_runs s) =
           (if takeWhile is_word s \<noteq> [] \<and> P (dropWhile is_word s) then [dropWhile is_word s] else [])"
proof (induction s)
  case Nil
  then show ?case by simp
next
  case (Cons c cs)
  show ?case
  proof (cases "is_word c")
    case False
    then show ?thesis by simp
  next
    case True
    show ?thesis
    proof (cases "P cs")
      case True
      with assms have "cs \<noteq> []" and "\<not> is_word (hd cs)" by blast+
      then have "takeWhile is_word cs = []" and "dropWhile is_word cs = cs"
        by (cases cs; simp)+
      with Cons \<open>is_word c\<close> \<open>P cs\<close> show ?thesis by simp
    next
      case False
      have "takeWhile is_word cs = [] \<Longrightarrow> dropWhile is_word cs = cs"
        by (cases cs) (auto split: if_splits)
      with Cons \<open>is_word c\<close> False show ?thesis by auto
    qed
  qed
qed

lemma take_length_dropWhile: "take (length s - length (dropWhile P s)) s = takeWhile P s"
proof -
  have "length s = length (takeWhile P s) + length (dropWhile P s)"
    by (metis length_append takeWhile_dropWhile_id)
  then have "length s - length (dropWhile P s) = length (takeWhile P s)"
    by simp
  then show ?thesis
    by (metis append_eq_conv_conj takeWhile_dropWhile_id)
qed

lemma seq_group_char:
  "concat (map (\<lambda>(r, cp'). rx_matches (RChar c) r cp')
             (map (\<lambda>(r, cp'). (r, g r cp')) (map (\<lambda>r. (r, cp)) xs))) =
     map (\<lambda>r. (tl r, g r cp)) (filter (\<lambda>r. r \<noteq> [] \<and> hd r = c) xs)"
  by (induction xs) (auto split: list.splits)

lemma braced_matches:
  "rx_matches (RSeq (RGroup 1 RWordPlus) (RChar CHR ''}'')) s cp =
     (case dropWhile is_word s of
        [] \<Rightarrow> []
      | e # rest \<Rightarrow>
          if e = CHR ''}'' \<and> takeWhile is_word s \<noteq> []
          then [(rest, cp(1 \<mapsto> takeWhile is_word s))] else [])"
proof -
  let ?P = "\<lambda>r. r \<noteq> [] \<and> hd r = CHR ''}''"
  let ?g = "\<lambda>r cp'. cp'(1 \<mapsto> take (length s - length r) s)"
  have nw: "\<not> is_word CHR ''}''"
    by (simp add: is_word_def)
  have "rx_matches (RSeq (RGroup 1 RWordPlus) (RChar CHR ''}'')) s cp =
        concat (map (\<lambda>(r, cp'). rx_matches (RChar CHR ''}'') r cp')
             (map (\<lambda>(r, cp'). (r, ?g r cp')) (map (\<lambda>r. (r, cp)) (word_runs s))))"
    by (simp only: rx_matches.simps(2,3,5))
  also have "\<dots> = map (\<lambda>r. (tl r, ?g r cp)) (filter ?P (word_runs s))"
    by (rule seq_group_char)
  finally have m: "rx_matches (RSeq (RGroup 1 RWordPlus) (RChar CHR ''}'')) s cp =
      map (\<lambda>r. (tl r, ?g r cp)) (filter ?P (word_runs s))" .
  have filt: "filter ?P (word_runs s) =
      (if takeWhile is_word s \<noteq> [] \<and> ?P (dropWhile is_word s) then [dropWhile is_word s] else [])"
    by (rule word_runs_filter) (use nw in auto)
  show ?thesis
  proof (cases "dropWhile is_word s")
    case Nil
    with m filt show ?thesis by (simp only: list.case) simp
  next
    case (Cons e rest)
    have "take (length s - length (e # rest)) s = takeWhile is_word s"
      using take_length_dropWhile [of s is_word] by (simp only: Cons)
    with m filt Cons show ?thesis
      by (simp only: list.case) auto
  qed
qed

lemma bare_matches:
  "rx_matches (RGroup 2 RWordPlus) s cp =
     map (\<lambda>r. (r, cp(2 \<mapsto> take (length s - length r) s))) (word_runs s)"
  by (simp add: comp_def)

lemma word_runs_Nil_iff: "word_runs s = [] \<longleftrightarrow> takeWhile is_word s = []"
  by (cases s) auto

lemma hd_word_runs: "takeWhile is_word s \<noteq> [] \<Longrightarrow> hd (word_runs s) = dropWhile is_word s"
proof (induction s)
  case Nil
  then show ?case by simp
next
  case (Cons c cs)
  then have w: "is_word c" by (auto split: if_splits)
  show ?case
  proof (cases "takeWhile is_word cs = []")
    case True
    then have "word_runs cs = []" and "dropWhile is_word cs = cs"
      by (cases cs; auto split: if_splits)+
    with w show ?thesis by simp
  next
    case False
    then have "word_runs cs \<noteq> []" by (simp add: word_runs_Nil_iff)
    with Cons.IH [OF False] w show ?thesis by simp
  qed
qed

lemma first_match_env_ref:
  "first_match ENV_REF_REGEX s =
     (case spec_ref_at s of
        None \<Rightarrow> None
      | Some (name, rest) \<Rightarrow>
          Some (rest, if hd (tl s) = CHR ''{'' then [1 \<mapsto> name] else [2 \<mapsto> name]))"
proof (cases s)
  case Nil
  then show ?thesis
    by (simp add: first_match_def ENV_REF_REGEX_def spec_ref_at_def)
next
  case (Cons c r)
  note s = this
  show ?thesis
  proof (cases "c = CHR ''$''")
    case False
    with s show ?thesis
      by (simp add: first_match_def ENV_REF_REGEX_def spec_ref_at_def)
  next
    case True
    note c = this
    have top: "rx_matches ENV_REF_REGEX s Map.empty =
        rx_matches (RSeq (RChar CHR ''{'') (RSeq (RGroup 1 RWordPlus) (RChar CHR ''}''))) r Map.empty
        @ rx_matches (RGroup 2 RWordPlus) r Map.empty"
      using s c by (simp add: ENV_REF_REGEX_def)
    show ?thesis
    proof (cases r)
      case Nil
      with s c top show ?thesis
        by (simp add: first_match_def spec_ref_at_def)
    next
      case (Cons b r')
      show ?thesis
      proof (cases "b = CHR ''{''")
        case True
        have nw: "\<not> is_word CHR ''{''" by (simp add: is_word_def)
        have bare: "rx_matches (RGroup 2 RWordPlus) r Map.empty = []"
          using Cons True nw by simp
        have "rx_matches (RSeq (RChar CHR ''{'') (RSeq (RGroup 1 RWordPlus) (RChar CHR ''}''))) r Map.empty
            = rx_matches (RSeq (RGroup 1 RWordPlus) (RChar CHR ''}'')) r' Map.empty"
          using Cons True by simp
        with top bare have "rx_matches ENV_REF_REGEX s Map.empty =
            rx_matches (RSeq (RGroup 1 RWordPlus) (RChar CHR ''}'')) r' Map.empty"
          by simp
        then have bm: "rx_matches ENV_REF_REGEX s Map.empty =
            (case dropWhile is_word r' of
               [] \<Rightarrow> []
             | e # rest \<Rightarrow>
                 if e = CHR ''}'' \<and> takeWhile is_word r' \<noteq> []
                 then [(rest, [1 \<mapsto> takeWhile is_word r'])] else [])"
          by (simp only: braced_matches)
        have sp: "spec_ref_at s =
            (case dropWhile is_word r' of
               [] \<Rightarrow> None
             | e # rest \<Rightarrow>
                 if e = CHR ''}'' \<and> takeWhile is_word r' \<noteq> []
                 then Some (takeWhile is_word r', rest) else None)"
          using s c Cons True by (simp add: spec_ref_at_def)
        show ?thesis
          unfolding first_match_def bm sp using s Cons True
          by (cases "dropWhile is_word r'") (simp_all del: dropWhile_eq_Nil_conv)
      next
        case False
        have "rx_matches (RSeq (RChar CHR ''{'') (RSeq (RGroup 1 RWordPlus) (RChar CHR ''}''))) r Map.empty = []"
          using Cons False by simp
        with top have m: "rx_matches ENV_REF_REGEX s Map.empty =
            map (\<lambda>x. (x, [2 \<mapsto> take (length r - length x) r])) (word_runs r)"
          by (simp only: bare_matches) simp
        show ?thesis
        proof (cases "takeWhile is_word r = []")
          case True
          then have "word_runs r = []" by (simp add: word_runs_Nil_iff)
          with m True s c Cons False show ?thesis
            by (simp add: first_match_def spec_ref_at_def)
        next
          case nonempty: False
          then have ne: "word_runs r \<noteq> []" by (simp add: word_runs_Nil_iff)
          then obtain x xs where wr: "word_runs r = x # xs" by (cases "word_runs r") auto
          with hd_word_runs [OF nonempty] have x: "x = dropWhile is_word r" by simp
          from m wr x have "first_match ENV_REF_REGEX s =
              Some (dropWhile is_word r, [2 \<mapsto> takeWhile is_word r])"
            by (simp add: first_match_def take_length_dropWhile)
          with nonempty s c Cons False show ?thesis
            by (simp add: spec_ref_at_def)
        qed
      qed
    qed
  qed
qed


section \<open>\<open>resolveEnvReferences\<close> step by step\<close>

lemma rx_search_Cons:
  "rx_search r (c # cs) =
     (case first_match r (c # cs) of
        None \<Rightarrow> map_option (\<lambda>(pre, m, cp, rest). (c # pre, m, cp, rest)) (rx_search r cs)
      | Some (rest, cp) \<Rightarrow> Some ([], take (length (c # cs) - length rest) (c # cs), cp, rest))"
  by (simp add: first_match_def split: list.splits)

lemma rx_search_Nil: "rx_search r [] = None"
proof (cases "rx_matches r [] Map.empty")
  case Nil
  then show ?thesis by simp
next
  case (Cons x xs)
  then have "(fst x, snd x) \<in> set (rx_matches r [] Map.empty)" by simp
  then have "length (fst x) < length ([] :: string)" by (rule rx_matches_shorter)
  then show ?thesis by simp
qed

lemma is_word_not_space: "is_word c \<Longrightarrow> \<not> is_space c"
  by (auto simp: is_word_def is_space_def Let_def)

lemma trim_word: "\<forall>c\<in>set name. is_word c \<Longrightarrow> trim name = name"
proof -
  assume a: "\<forall>c\<in>set name. is_word c"
  have d: "\<And>xs. \<forall>c\<in>set xs. is_word c \<Longrightarrow> dropWhile is_space xs = xs"
  proof -
    fix xs :: string
    assume "\<forall>c\<in>set xs. is_word c"
    then show "dropWhile is_space xs = xs"
      by (cases xs) (auto dest: is_word_not_space)
  qed
  from a have "dropWhile is_space name = name" by (rule d)
  moreover from a have "dropWhile is_space (rev name) = rev name" by (intro d) simp
  ultimately show ?thesis by (simp add: trim_def)
qed

lemma spec_ref_at_name:
  "spec_ref_at s = Some (name, rest) \<Longrightarrow> name \<noteq> [] \<and> (\<forall>c\<in>set name. is_word c)"
  by (auto simp: spec_ref_at_def split: list.splits if_splits dest: set_takeWhileD)

lemma resolve_Nil: "resolveEnvReferences env [] accountId = Inr []"
  by (simp add: resolveEnvReferences_def replaceAll_def find_all.simps [of _ "[]"] rx_search_Nil
      del: rx_search.simps)

lemma resolve_no_ref:
  assumes "spec_ref_at (c # cs) = None"
  shows "resolveEnvReferences env (c # cs) accountId =
           (case resolveEnvReferences env cs accountId of
              Inl e \<Rightarrow> Inl e
            | Inr out \<Rightarrow> Inr (c # out))"
proof -
  have fm: "first_match ENV_REF_REGEX (c # cs) = None"
    using assms by (simp add: first_match_env_ref)
  have rs: "rx_search ENV_REF_REGEX (c # cs) =
      map_option (\<lambda>(pre, m, cp, rest). (c # pre, m, cp, rest)) (rx_search ENV_REF_REGEX cs)"
    by (simp only: rx_search_Cons fm option.case)
  show ?thesis
  proof (cases "rx_search ENV_REF_REGEX cs")
    case None
    with rs have "find_all ENV_REF_REGEX (c # cs) = [Lit (c # cs)]"
      and "find_all ENV_REF_REGEX cs = [Lit cs]"
      by (simp_all add: find_all.simps [of _ "c # cs"] find_all.simps [of _ cs])
    then show ?thesis
      by (simp add: resolveEnvReferences_def replaceAll_def)
  next
    case (Some x)
    obtain pre m cp rest where x: "x = (pre, m, cp, rest)" by (cases x)
    with Some rs have "find_all ENV_REF_REGEX (c # cs) = Lit (c # pre) # Found m cp # find_all ENV_REF_REGEX rest"
      and "find_all ENV_REF_REGEX cs = Lit pre # Found m cp # find_all ENV_REF_REGEX rest"
      by (simp_all add: find_all.simps [of _ "c # cs"] find_all.simps [of _ cs])
    then show ?thesis
      by (simp add: resolveEnvReferences_def replaceAll_def split: sum.splits)
  qed
qed

lemma resolve_ref:
  assumes "spec_ref_at s = Some (name, rest)"
  shows "resolveEnvReferences env s accountId =
           (case env name of
              None \<Rightarrow> Inl (JsError (env_missing_message accountId name))
            | Some v \<Rightarrow>
                if v = [] then Inl (JsError (env_missing_message accountId name))
                else (case resolveEnvReferences env rest accountId of
                        Inl e \<Rightarrow> Inl e
                      | Inr out \<Rightarrow> Inr (v @ out)))"
proof -
  from assms obtain c cs where s: "s = c # cs"
    by (cases s) (auto simp: spec_ref_at_def)
  define cp :: captures where "cp = (if hd (tl s) = CHR ''{'' then [1 \<mapsto> name] else [2 \<mapsto> name])"
  have fm: "first_match ENV_REF_REGEX (c # cs) = Some (rest, cp)"
    using assms by (simp add: first_match_env_ref s cp_def)
  have rs: "rx_search ENV_REF_REGEX s = Some ([], take (length s - length rest) s, cp, rest)"
    unfolding s by (simp only: rx_search_Cons fm option.case prod.case)
  have fa: "find_all ENV_REF_REGEX s =
      Lit [] # Found (take (length s - length rest) s) cp # find_all ENV_REF_REGEX rest"
    by (simp add: find_all.simps [of _ s] rs)
  from spec_ref_at_name [OF assms] have ne: "name \<noteq> []" and tr: "trim name = name"
    by (simp_all add: trim_word)
  have vn: "trim (case cp 1 of Some bracketedVar \<Rightarrow> bracketedVar
                  | None \<Rightarrow> (case cp 2 of Some bareVar \<Rightarrow> bareVar | None \<Rightarrow> [])) = name"
    by (simp add: cp_def tr)
  have er: "env_replacer env accountId (take (length s - length rest) s) cp =
      (case env name of
         None \<Rightarrow> Inl (JsError (env_missing_message accountId name))
       | Some v \<Rightarrow> if v = [] then Inl (JsError (env_missing_message accountId name)) else Inr v)"
    unfolding env_replacer_def vn Let_def using ne by simp
  show ?thesis
    by (simp add: resolveEnvReferences_def replaceAll_def fa er split: option.splits sum.splits)
qed

lemma resolve_spec_scan:
  "resolveEnvReferences env s accountId = spec_substitute env accountId (spec_scan s)"
proof (induction s rule: spec_scan.induct)
  case 1
  show ?case by (simp add: resolve_Nil)
next
  case (2 c cs)
  show ?case
  proof (cases "spec_ref_at (c # cs)")
    case None
    from 2(1) [OF None]
    have "resolveEnvReferences env cs accountId = spec_substitute env accountId (spec_scan cs)" .
    with None show ?thesis
      by (simp add: resolve_no_ref [OF None])
  next
    case (Some x)
    obtain name rest where x: "x = (name, rest)" by (cases x)
    with Some have sr: "spec_ref_at (c # cs) = Some (name, rest)" by simp
    from 2(2) [OF Some x [symmetric]]
    have "resolveEnvReferences env rest accountId = spec_substitute env accountId (spec_scan rest)" .
    with sr show ?thesis
      by (simp add: resolve_ref [OF sr] split: option.splits)
  qed
qed


text \<open>
  Claim C9. \<open>resolveEnvReferences\<close>, the \<open>replaceAll\<close> of \<open>ENV_REF_REGEX\<close> with its replacer,
  computes what the left-to-right scanner with the two tokens \<open>${NAME}\<close> and \<open>$NAME\<close>
  (\<open>NAME\<close> one or more of \<open>[A-Za-z0-9_]\<close>) computes. A \<open>$\<close> that starts no token is copied to
  the output and scanning goes on behind it; so \<open>$\<close> before a non-word character, a trailing
  \<open>$\<close> and \<open>${}\<close> come out unchanged, whatever the environment, and raise no error.
\<close>

theorem resolveEnvReferences_scanner:
  "resolveEnvReferences env value accountId = spec_substitute env accountId (spec_scan value) \<and>
   (spec_ref_at (CHR ''$'' # s) = None \<longrightarrow>
      resolveEnvReferences env (CHR ''$'' # s) accountId =
        (case resolveEnvReferences env s accountId of
           Inl e \<Rightarrow> Inl e
         | Inr out \<Rightarrow> Inr (CHR ''$'' # out))) \<and>
   resolveEnvReferences env ''a$-b'' accountId = Inr ''a$-b'' \<and>
   resolveEnvReferences env ''ab$'' accountId = Inr ''ab$'' \<and>
   resolveEnvReferences env ''${}'' accountId = Inr ''${}''"
proof (intro conjI impI)
  show "resolveEnvReferences env value accountId = spec_substitute env accountId (spec_scan value)"
    by (rule resolve_spec_scan)
  show "resolveEnvReferences env (CHR ''$'' # s) accountId =
        (case resolveEnvReferences env s accountId of
           Inl e \<Rightarrow> Inl e
         | Inr out \<Rightarrow> Inr (CHR ''$'' # out))"
    if "spec_ref_at (CHR ''$'' # s) = None"
    using that by (rule resolve_no_ref)
  show "resolveEnvReferences env ''a$-b'' accountId = Inr ''a$-b''"
    by (simp add: resolve_spec_scan spec_ref_at_def is_word_def)
  show "resolveEnvReferences env ''ab$'' accountId = Inr ''ab$''"
    by (simp add: resolve_spec_scan spec_ref_at_def is_word_def)
  show "resolveEnvReferences env ''${}'' accountId = Inr ''${}''"
    by (simp add: resolve_spec_scan spec_ref_at_def is_word_def)
qed

theorem resolveEnvReferences_scanner_witness:
  "spec_ref_at ''$-${A}'' = None \<and>
   resolveEnvReferences [''A'' \<mapsto> ''v''] ''$-${A}'' ''acct'' = Inr ''$-v''"
proof -
  have n: "spec_ref_at ''$-${A}'' = None"
    by (simp add: spec_ref_at_def is_word_def)
  have r: "resolveEnvReferences [''A'' \<mapsto> ''v''] ''-${A}'' ''acct'' = Inr ''-v''"
    by code_simp
  from resolveEnvReferences_scanner [of "[''A'' \<mapsto> ''v'']" "[]" "''acct''" "''-${A}''"] n
  have "resolveEnvReferences [''A'' \<mapsto> ''v''] ''$-${A}'' ''acct'' =
      (case resolveEnvReferences [''A'' \<mapsto> ''v''] ''-${A}'' ''acct'' of
         Inl e \<Rightarrow> Inl e
       | Inr out \<Rightarrow> Inr (CHR ''$'' # out))"
    by blast
  with n r show ?thesis
    by simp
qed

lemma first_match_no_dollar: "c \<noteq> CHR ''$'' \<Longrightarrow> first_match ENV_REF_REGEX (c # cs) = None"
  by (simp add: first_match_env_ref spec_ref_at_def)

text \<open>A string without the character \<open>$\<close> holds no match of the pattern.\<close>

lemma rx_search_no_dollar: "CHR ''$'' \<notin> set value \<Longrightarrow> rx_search ENV_REF_REGEX value = None"
proof (induction "value")
  case Nil
  show ?case by (rule rx_search_Nil)
next
  case (Cons c cs)
  then have "c \<noteq> CHR ''$''" and r: "rx_search ENV_REF_REGEX cs = None"
    by auto
  then have "first_match ENV_REF_REGEX (c # cs) = None"
    by (simp add: first_match_no_dollar)
  with r show ?case
    by (simp only: rx_search_Cons option.case option.map)
qed

text \<open>
  Claim C8. A credential in which the pattern finds no reference is returned unchanged; in
  particular every credential without the character \<open>$\<close>.
\<close>

theorem resolveEnvReferences_unchanged:
  "(rx_search ENV_REF_REGEX value = None \<longrightarrow> resolveEnvReferences env value accountId = Inr value) \<and>
   (CHR ''$'' \<notin> set value \<longrightarrow> resolveEnvReferences env value accountId = Inr value)"
proof -
  have a: "resolveEnvReferences env value accountId = Inr value"
    if "rx_search ENV_REF_REGEX value = None"
    using that by (simp add: resolveEnvReferences_def replaceAll_def find_all.simps [of _ "value"])
  moreover have "resolveEnvReferences env value accountId = Inr value"
    if "CHR ''$'' \<notin> set value"
    using that by (intro a rx_search_no_dollar)
  ultimately show ?thesis by blast
qed

theorem resolveEnvReferences_unchanged_witness:
  "CHR ''$'' \<notin> set ''token-one'' \<and>
   resolveEnvReferences [''A'' \<mapsto> ''v''] ''token-one'' ''primary'' = Inr ''token-one'' \<and>
   rx_search ENV_REF_REGEX ''a$-${'' = None \<and>
   resolveEnvReferences [''A'' \<mapsto> ''v''] ''a$-${'' ''primary'' = Inr ''a$-${''"
proof -
  have d: "CHR ''$'' \<notin> set ''token-one''"
    by simp
  have n: "rx_search ENV_REF_REGEX ''a$-${'' = None"
    by code_simp
  from resolveEnvReferences_unchanged [of "''token-one''" "[''A'' \<mapsto> ''v'']" "''primary''"] d
  have "resolveEnvReferences [''A'' \<mapsto> ''v''] ''token-one'' ''primary'' = Inr ''token-one''"
    by blast
  moreover from resolveEnvReferences_unchanged [of "''a$-${''" "[''A'' \<mapsto> ''v'']" "''primary''"] n
  have "resolveEnvReferences [''A'' \<mapsto> ''v''] ''a$-${'' ''primary'' = Inr ''a$-${''"
    by blast
  ultimately show ?thesis
    using d n by blast
qed


section \<open>A reference inside a credential\<close>












section \<open>Failing and succeeding resolutions\<close>

lemma TRef_spec_refs: "TRef Y \<in> set (spec_scan s) \<longleftrightarrow> Y \<in> set (spec_refs s)"
  by (auto simp: spec_refs_def split: token.splits)


lemma spec_substitute_ok:
  "\<forall>Y. TRef Y \<in> set ts \<longrightarrow> is_set env Y \<Longrightarrow> \<exists>out. spec_substitute env a ts = Inr out"
  by (induction env a ts rule: spec_substitute.induct)
     (auto simp: is_set_def split: sum.splits option.splits if_splits)


lemma resolve_ok:
  "list_all (is_set env) (spec_refs s) \<Longrightarrow> \<exists>out. resolveEnvReferences env s a = Inr out"
  using spec_substitute_ok [of "spec_scan s" env a]
  by (auto simp: resolve_spec_scan TRef_spec_refs list_all_iff)









section \<open>A valid document resolves to its entries\<close>

lemma normalizeAccount_valid:
  assumes "valid_entry env account"
  shows "\<exists>a. normalizeAccount env account k p = Inr a \<and> entry_resolved env account a"
proof -
  from assms obtain i tok where f: "entry_fields account = Some (i, tok)"
    and i: "trim i \<noteq> []" and t: "trim tok \<noteq> []" and r: "list_all (is_set env) (spec_refs tok)"
    by (auto simp: valid_entry_def split: option.splits)
  from f have pi: "property account ''id'' = Some (YStr i)"
    and pt: "property account ''github_token'' = Some (YStr tok)"
    by (auto simp: entry_fields_def split: option.splits yaml.splits)
  from pi obtain m where "account = YMap m" by (cases account) auto
  moreover from resolve_ok [OF r, of i] obtain out where "resolveEnvReferences env tok i = Inr out"
    by blast
  ultimately show ?thesis
    using pi pt i t f by (simp add: entry_resolved_def)
qed

lemma normalize_from_valid:
  "\<forall>x\<in>set xs. valid_entry env x \<Longrightarrow>
   \<exists>accs. normalize_from env p k xs = Inr accs \<and> list_all2 (entry_resolved env) xs accs"
proof (induction xs arbitrary: k)
  case Nil
  then show ?case by simp
next
  case (Cons x xs)
  from Cons.prems have "valid_entry env x" by simp
  from normalizeAccount_valid [OF this, of k p] obtain a
    where a: "normalizeAccount env x k p = Inr a" "entry_resolved env x a" by blast
  from Cons.prems have "\<forall>x\<in>set xs. valid_entry env x" by simp
  from Cons.IH [OF this, of "Suc k"] obtain accs
    where "normalize_from env p (Suc k) xs = Inr accs" "list_all2 (entry_resolved env) xs accs"
    by blast
  with a show ?case by simp
qed

text \<open>
  Claim C2. When the config file parses to a document whose \<open>accounts\<close> is a sequence of
  \<open>N \<ge> 1\<close> valid entries, \<open>getAccountsConfig\<close> (on an empty cache) returns a config with
  exactly \<open>N\<close> accounts, the k-th account being the k-th entry resolved, so in declaration
  order; its \<open>defaultAccountId\<close> is the id of the first entry.
\<close>

theorem getAccountsConfig_valid_document:
  assumes "files w (config_path h w) = Some raw" and "parse h raw = Inr doc"
    and "property doc ''accounts'' = Some (YSeq entries)" and "entries \<noteq> []"
    and "\<forall>x\<in>set entries. valid_entry (process_env w) x"
  shows "\<exists>cfg. getAccountsConfig h w None = (Inr cfg, Some cfg) \<and>
           length (accounts cfg) = length entries \<and>
           list_all2 (entry_resolved (process_env w)) entries (accounts cfg) \<and>
           map id' (accounts cfg) = map (\<lambda>x. fst (the (entry_fields x))) entries \<and>
           defaultAccountId cfg = fst (the (entry_fields (hd entries)))"
proof -
  from assms(3) obtain m where doc: "doc = YMap m" by (cases doc) auto
  from normalize_from_valid [OF assms(5), of "config_path h w" 0] obtain accs
    where n: "normalize_from (process_env w) (config_path h w) 0 entries = Inr accs"
      and l: "list_all2 (entry_resolved (process_env w)) entries accs"
    by blast
  from l have len: "length accs = length entries"
    by (simp add: list_all2_lengthD)
  with assms(4) obtain a rest where accs: "accs = a # rest" by (cases accs) auto
  have ids: "map id' accs = map (\<lambda>x. fst (the (entry_fields x))) entries"
    using l by (induction entries accs rule: list_all2_induct)
      (auto simp: entry_resolved_def split: option.splits)
  from ids accs assms(4) have d: "id' a = fst (the (entry_fields (hd entries)))"
    by (cases entries) auto
  have "parseConfig h (process_env w) raw (config_path h w)
      = Inr \<lparr>accounts = accs, defaultAccountId = id' a\<rparr>"
    using assms(2,3,4) doc n accs by (simp add: parseConfig_def)
  then have "getAccountsConfig h w None =
      (Inr \<lparr>accounts = accs, defaultAccountId = id' a\<rparr>, Some \<lparr>accounts = accs, defaultAccountId = id' a\<rparr>)"
    using assms(1) by (simp add: getAccountsConfig_None fresh_load_def readConfigFile_def)
  with len l ids d show ?thesis by simp
qed


theorem getAccountsConfig_valid_document_witness:
  "valid_entry [''TOK'' \<mapsto> ''abc'']
     (YMap [(''id'', YStr ''primary''), (''github_token'', YStr ''token-one'')]) \<and>
   valid_entry [''TOK'' \<mapsto> ''abc'']
     (YMap [(''id'', YStr ''backup''), (''github_token'', YStr ''${TOK}'')]) \<and>
   (\<exists>cfg. getAccountsConfig example_host
             \<lparr>files = [''/cwd/config.yaml'' \<mapsto> ''two''], process_env = [''TOK'' \<mapsto> ''abc'']\<rparr> None
             = (Inr cfg, Some cfg) \<and>
           length (accounts cfg) = 2 \<and>
           map id' (accounts cfg) = [''primary'', ''backup''] \<and>
           defaultAccountId cfg = ''primary'')"
proof -
  let ?w = "\<lparr>files = [''/cwd/config.yaml'' \<mapsto> ''two''], process_env = [''TOK'' \<mapsto> ''abc'']\<rparr>"
  let ?e1 = "YMap [(''id'', YStr ''primary''), (''github_token'', YStr ''token-one'')]"
  let ?e2 = "YMap [(''id'', YStr ''backup''), (''github_token'', YStr ''${TOK}'')]"
  have v1: "valid_entry [''TOK'' \<mapsto> ''abc''] ?e1" and v2: "valid_entry [''TOK'' \<mapsto> ''abc''] ?e2"
    by code_simp+
  have cp: "config_path example_host ?w = ''/cwd/config.yaml''"
    by (simp add: config_path_def example_host_def)
  have f: "files ?w (config_path example_host ?w) = Some ''two''"
    by (simp add: cp)
  have p: "parse example_host ''two'' = Inr doc_two"
    by (simp add: example_host_def)
  have a: "property doc_two ''accounts'' = Some (YSeq [?e1, ?e2])"
    by (simp add: doc_two_def)
  have ne: "[?e1, ?e2] \<noteq> []"
    by simp
  have v: "\<forall>x\<in>set [?e1, ?e2]. valid_entry (process_env ?w) x"
    using v1 v2 by simp
  have i1: "fst (the (entry_fields ?e1)) = ''primary''" and i2: "fst (the (entry_fields ?e2)) = ''backup''"
    by (simp_all add: entry_fields_def)
  from getAccountsConfig_valid_document [OF f p a ne v] obtain cfg
    where g: "getAccountsConfig example_host ?w None = (Inr cfg, Some cfg)"
      and l: "length (accounts cfg) = length [?e1, ?e2]"
      and m: "map id' (accounts cfg) = map (\<lambda>x. fst (the (entry_fields x))) [?e1, ?e2]"
      and d: "defaultAccountId cfg = fst (the (entry_fields (hd [?e1, ?e2])))"
    by blast
  from l have "length (accounts cfg) = 2"
    by simp
  moreover from m i1 i2 have "map id' (accounts cfg) = [''primary'', ''backup'']"
    by simp
  moreover from d i1 have "defaultAccountId cfg = ''primary''"
    by simp
  ultimately have "\<exists>cfg. getAccountsConfig example_host ?w None = (Inr cfg, Some cfg) \<and>
           length (accounts cfg) = 2 \<and>
           map id' (accounts cfg) = [''primary'', ''backup''] \<and>
           defaultAccountId cfg = ''primary''"
    using g by (intro exI [of _ cfg]) simp
  with v1 v2 show ?thesis
    by (intro conjI)
qed

end
